theory Spec2Isabelle
  imports Complex_Main "HOL-Library.Multiset"
begin

section \<open>Strings of the handler\<close>

text \<open>
  A JavaScript string is a sequence of UTF-16 code units. The model uses \<^typ>\<open>string\<close>,
  that is, it covers the code units below 256 (Latin-1); \<open>length\<close> is then the
  \<^verbatim>\<open>.length\<close> of the source. The regular expression \<^verbatim>\<open>/\s/\<close> matches, in that range,
  TAB, LF, VT, FF, CR, SPACE and NBSP.
\<close>

definition isWhiteSpace :: "char \<Rightarrow> bool" where
  "isWhiteSpace c \<longleftrightarrow>
     c \<in> set [CHR 0x09, CHR 0x0A, CHR 0x0B, CHR 0x0C, CHR 0x0D, CHR 0x20, CHR 0xA0]"

text \<open>
  \<^verbatim>\<open>s.split(/\s/)\<close>: the string is cut at every single white-space character, so two
  adjacent separators, or a separator at either end, give an empty piece; the empty
  string gives one empty piece, never the empty array.
\<close>

fun split_ws :: "string \<Rightarrow> string list" where
  "split_ws [] = [[]]"
| "split_ws (c # cs) =
     (if isWhiteSpace c then [] # split_ws cs
      else (case split_ws cs of [] \<Rightarrow> [[c]] | w # ws \<Rightarrow> (c # w) # ws))"

text \<open>\<^verbatim>\<open>words.join(" ")\<close>; the empty array gives the empty string.\<close>

fun join_sp :: "string list \<Rightarrow> string" where
  "join_sp [] = []"
| "join_sp [w] = w"
| "join_sp (w # v # ws) = w @ CHR 0x20 # join_sp (v # ws)"

text \<open>
  \<^verbatim>\<open>word.toLowerCase()\<close> on code units below 256: the letters A to Z and the accented
  capitals 0xC0 to 0xDE (0xD7, the multiplication sign, apart) move up by 32.
\<close>

definition toLowerCase_char :: "char \<Rightarrow> char" where
  "toLowerCase_char c =
     (let n = (of_char c :: nat)
      in if (65 \<le> n \<and> n \<le> 90) \<or> (192 \<le> n \<and> n \<le> 222 \<and> n \<noteq> 215)
         then char_of (n + 32) else c)"

definition toLowerCase :: "string \<Rightarrow> string" where
  "toLowerCase w = map toLowerCase_char w"

section \<open>External collaborators and configuration\<close>

text \<open>
  A vector returned by the index: its \<^verbatim>\<open>score\<close> and \<^verbatim>\<open>metadata?.text\<close> (absent when the
  entry carries no metadata). Scores are finite numbers that the handler only compares;
  they are modelled as reals.
\<close>

record vector =
  score :: real
  metadata_text :: "string option"

text \<open>
  \<^verbatim>\<open>index.query({topK: 1, data, includeMetadata: true})\<close> is a promise: it rejects, or
  it resolves with an array of vectors.
\<close>

datatype query_result = Rejected | Resolved "vector list"

text \<open>
  The environment of a request: the index, the text splitter of langchain
  (\<^verbatim>\<open>createDocuments([text])\<close> followed by \<^verbatim>\<open>pageContent\<close>), and the two constants
  imported from \<^verbatim>\<open>./config\<close>. All four live outside the handler and are parameters.
\<close>

record env =
  index_query :: "string \<Rightarrow> query_result"
  semanticSplitter :: "string \<Rightarrow> string list"
  PROFANITY_THRESHOLD :: real
  WHITELIST :: "string list"

section \<open>Chunking\<close>

definition splitTextIntoWords :: "string \<Rightarrow> string list" where
  "splitTextIntoWords m = split_ws m"

definition splitTextIntoSemantics :: "(string \<Rightarrow> string list) \<Rightarrow> string \<Rightarrow> string list" where
  "splitTextIntoSemantics splitter m =
     (if length (split_ws m) = 1 then [] else splitter m)"

text \<open>The filter on the whitelist (the assignment to \<^verbatim>\<open>message\<close> before chunking).\<close>

definition filterWhitelist :: "string list \<Rightarrow> string \<Rightarrow> string" where
  "filterWhitelist whitelist m =
     join_sp (filter (\<lambda>word. \<not> (toLowerCase word \<in> set whitelist)) (split_ws m))"

section \<open>The per-chunk callbacks\<close>

text \<open>An object \<^verbatim>\<open>{ text, score }\<close> handed to \<^verbatim>\<open>flaggedFor.add\<close>.\<close>

record flagged =
  flag_text :: "string option"
  flag_score :: real

datatype exn = QueryError | TypeError

text \<open>\<^verbatim>\<open>const [vector] = ...\<close>: the first element of the array, or undefined.\<close>

fun first_of :: "'a list \<Rightarrow> 'a option" where
  "first_of [] = None"
| "first_of (v # _) = Some v"

text \<open>
  A callback that gets past its \<^verbatim>\<open>await\<close> does two things: it may add one object to the
  set, and it returns the value that lands in \<^verbatim>\<open>vectorRes\<close>. Both are recorded in the
  pair below; a rejected query makes the callback throw at the \<^verbatim>\<open>await\<close>.
  The word callback returns the literal \<^verbatim>\<open>{ score: 0 }\<close>, the semantic callback returns
  the vector itself, which may be undefined.
\<close>

definition wordCallback :: "env \<Rightarrow> string \<Rightarrow> exn + (flagged option \<times> vector option)" where
  "wordCallback e wordChunk =
     (case index_query e wordChunk of
        Rejected \<Rightarrow> Inl QueryError
      | Resolved vs \<Rightarrow>
          Inr (case first_of vs of
                 None \<Rightarrow> None
               | Some v \<Rightarrow>
                   if score v > 0.95
                   then Some \<lparr>flag_text = metadata_text v, flag_score = score v\<rparr>
                   else None,
               Some \<lparr>score = 0, metadata_text = None\<rparr>))"

definition semanticCallback :: "env \<Rightarrow> string \<Rightarrow> exn + (flagged option \<times> vector option)" where
  "semanticCallback e semanticChunk =
     (case index_query e semanticChunk of
        Rejected \<Rightarrow> Inl QueryError
      | Resolved vs \<Rightarrow>
          Inr (case first_of vs of
                 None \<Rightarrow> None
               | Some v \<Rightarrow>
                   if score v > PROFANITY_THRESHOLD e
                   then Some \<lparr>flag_text = metadata_text v, flag_score = score v\<rparr>
                   else None,
               first_of vs))"

text \<open>The callbacks in the order of the array given to \<^verbatim>\<open>Promise.all\<close>.\<close>

definition callbacks :: "env \<Rightarrow> string \<Rightarrow> (exn + (flagged option \<times> vector option)) list" where
  "callbacks e m =
     map (wordCallback e) (splitTextIntoWords m)
     @ map (semanticCallback e) (splitTextIntoSemantics (semanticSplitter e) m)"

text \<open>
  Every callback calls \<^verbatim>\<open>index.query\<close> before it suspends, so the queries issued for a
  message are known before any of them completes.
\<close>

definition queries :: "env \<Rightarrow> string \<Rightarrow> string list" where
  "queries e m = splitTextIntoWords m @ splitTextIntoSemantics (semanticSplitter e) m"

text \<open>\<^verbatim>\<open>Promise.all\<close>: rejects when one promise rejects, else the values in array order.\<close>

fun promise_all :: "('e + 'a) list \<Rightarrow> 'e + 'a list" where
  "promise_all [] = Inr []"
| "promise_all (Inl x # ps) = Inl x"
| "promise_all (Inr v # ps) = (case promise_all ps of Inl x \<Rightarrow> Inl x | Inr vs \<Rightarrow> Inr (v # vs))"

definition vectorRes :: "env \<Rightarrow> string \<Rightarrow> exn + vector option list" where
  "vectorRes e m = promise_all (map (map_sum id snd) (callbacks e m))"

section \<open>The set of flagged objects\<close>

text \<open>
  A JavaScript \<^verbatim>\<open>Set\<close> of objects compares its members by reference and keeps them in
  insertion order. An object is a reference with its contents; \<^verbatim>\<open>add\<close> appends unless
  the same reference is already a member.
\<close>

definition set_add :: "nat \<times> 'a \<Rightarrow> (nat \<times> 'a) list \<Rightarrow> (nat \<times> 'a) list" where
  "set_add obj s = (if fst obj \<in> fst ` set s then s else s @ [obj])"

text \<open>
  The effect of one resumed callback on the heap and the set: an object literal is a new
  object, so it takes the next unused reference.
\<close>

fun resume :: "flagged option \<Rightarrow> nat \<times> (nat \<times> flagged) list \<Rightarrow> nat \<times> (nat \<times> flagged) list" where
  "resume None st = st"
| "resume (Some f) (next_ref, s) = (Suc next_ref, set_add (next_ref, f) s)"

text \<open>
  The queries complete in an order the handler does not control. \<open>latency i\<close> is the
  time at which query number \<open>i\<close> (in the order of \<^const>\<open>callbacks\<close>) completes; callbacks
  resume in the order of these times, the earlier query first among equal times. Every
  order of completion is the order of some \<open>latency\<close> (lemma \<open>every_completion_order\<close>).
\<close>

definition completion_order :: "(nat \<Rightarrow> nat) \<Rightarrow> 'a list \<Rightarrow> 'a list" where
  "completion_order latency xs = map snd (sort_key (\<lambda>p. latency (fst p)) (enumerate 0 xs))"

text \<open>The flag of a callback: what it adds to the set, nothing when its query rejected.\<close>

fun flag_of :: "exn + (flagged option \<times> vector option) \<Rightarrow> flagged option" where
  "flag_of (Inl _) = None"
| "flag_of (Inr r) = fst r"

definition flaggedFor :: "env \<Rightarrow> (nat \<Rightarrow> nat) \<Rightarrow> string \<Rightarrow> (nat \<times> flagged) list" where
  "flaggedFor e latency m =
     snd (fold resume (completion_order latency (map flag_of (callbacks e m))) (0, []))"

section \<open>Sorting\<close>

text \<open>
  \<^verbatim>\<open>Array.prototype.sort(comparefn)\<close>: undefined elements go to the end without a call of
  the comparator; the others are sorted by insertion, an element going before the first
  one against which the comparator answers a negative number. The comparator of the
  handler answers 1 on equal scores in both directions, for which ECMAScript leaves the
  order to the implementation; V8 only tests the sign \<open>< 0\<close>, as this model does.
\<close>

fun insert_by :: "('a \<Rightarrow> 'a \<Rightarrow> int) \<Rightarrow> 'a \<Rightarrow> 'a list \<Rightarrow> 'a list" where
  "insert_by cmp x [] = [x]"
| "insert_by cmp x (y # ys) = (if cmp x y < 0 then x # y # ys else y # insert_by cmp x ys)"

definition js_sort :: "('a \<Rightarrow> 'a \<Rightarrow> int) \<Rightarrow> 'a option list \<Rightarrow> 'a option list" where
  "js_sort cmp xs =
     map Some (foldl (\<lambda>acc x. insert_by cmp x acc) [] (List.map_filter id xs))
     @ filter (\<lambda>x. x = None) xs"

definition by_flag_score :: "flagged \<Rightarrow> flagged \<Rightarrow> int" where
  "by_flag_score a b = (if flag_score a > flag_score b then - 1 else 1)"

definition by_score :: "vector \<Rightarrow> vector \<Rightarrow> int" where
  "by_score a b = (if score a > score b then - 1 else 1)"

section \<open>The handler\<close>

datatype response =
  Json_error nat string
| Classification bool real "string option"

text \<open>
  The part of the handler after the whitelist filter. \<open>Classification b s t\<close> is the body
  \<^verbatim>\<open>{ isProfanity: b, score: s, flaggedFor: t }\<close>, the last key absent when \<open>t\<close> is
  \<open>None\<close>. Reading \<^verbatim>\<open>.score\<close> of undefined throws a TypeError.
\<close>

definition classify :: "env \<Rightarrow> (nat \<Rightarrow> nat) \<Rightarrow> string \<Rightarrow> exn + response" where
  "classify e latency m =
     (case vectorRes e m of
        Inl x \<Rightarrow> Inl x
      | Inr res \<Rightarrow>
          if length (flaggedFor e latency m) > 0
          then (case first_of (js_sort by_flag_score (map (Some \<circ> snd) (flaggedFor e latency m))) of
                  Some (Some mostProfaneWord) \<Rightarrow>
                    Inr (Classification True (flag_score mostProfaneWord) (flag_text mostProfaneWord))
                | _ \<Rightarrow> Inl TypeError)
          else (case first_of (js_sort by_score res) of
                  Some (Some sorted') \<Rightarrow> Inr (Classification False (score sorted') None)
                | _ \<Rightarrow> Inl TypeError))"

text \<open>
  A request: its Content-Type header and the \<^verbatim>\<open>message\<close> field of its JSON body (absent
  when the body has no such field); the body is taken as parsed, and the field as a
  string, as the handler's type annotation has it. The handler answers with a response;
  the second component lists the texts sent to the index while it ran.
  \<open>Json_error status msg\<close> is the body \<^verbatim>\<open>{ error: msg }\<close> sent with that status; the body
  of the 500 answer also carries the serialised exception, which is left out.
\<close>

record request =
  content_type :: "string option"
  body_message :: "string option"

definition app_post :: "env \<Rightarrow> (nat \<Rightarrow> nat) \<Rightarrow> request \<Rightarrow> response \<times> string list" where
  "app_post e latency req =
     (if content_type req \<noteq> Some ''application/json''
      then (Json_error 406 ''JSON body expected.'', [])
      else case body_message req of
        None \<Rightarrow> (Json_error 400 ''Message argument is required.'', [])
      | Some m \<Rightarrow>
          if m = [] then (Json_error 400 ''Message argument is required.'', [])
          else if length (split_ws m) < 2
          then (Json_error 400 ''Please enter a longer text, at least 2 words.'', [])
          else if length (split_ws m) > 35 \<or> length m > 1000
          then (Json_error 400
                  ''Due to temporary cloudflare limits, a message can only be up to 35 words or 1000 characters.'',
                [])
          else
            (let m' = filterWhitelist (WHITELIST e) m
             in (case classify e latency m' of
                   Inl x \<Rightarrow> Json_error 500 ''Something went wrong.''
                 | Inr r \<Rightarrow> r,
                 queries e m')))"

section \<open>Notions used to state the properties\<close>

text \<open>The score of the vector the index returns for a chunk, if it returns one.\<close>

definition top_score :: "env \<Rightarrow> string \<Rightarrow> real option" where
  "top_score e c =
     (case index_query e c of Rejected \<Rightarrow> None | Resolved vs \<Rightarrow> map_option score (first_of vs))"

text \<open>
  A request gets past the four guards of the handler with message \<open>m\<close>: each conjunct is
  the negation of one guard.
\<close>

definition passes_validation :: "request \<Rightarrow> string \<Rightarrow> bool" where
  "passes_validation req m \<longleftrightarrow>
     content_type req = Some ''application/json'' \<and> body_message req = Some m \<and> m \<noteq> []
     \<and> 2 \<le> length (split_ws m) \<and> length (split_ws m) \<le> 35 \<and> length m \<le> 1000"

definition json_request :: "string \<Rightarrow> request" where
  "json_request m = \<lparr>content_type = Some ''application/json'', body_message = Some m\<rparr>"

subsection \<open>Scenarios\<close>

text \<open>
  Four indexes, each with a splitter that returns its input as one chunk, the threshold
  0.86 and the whitelist \<^verbatim>\<open>["black"]\<close>. The first knows nothing close to any chunk but
  answers with moderate scores; the second holds the entry \<^verbatim>\<open>damn\<close>; the third holds
  \<^verbatim>\<open>foo\<close> and \<^verbatim>\<open>bar\<close>; the fourth is empty.
\<close>

definition env_of :: "(string \<Rightarrow> query_result) \<Rightarrow> env" where
  "env_of q = \<lparr>index_query = q, semanticSplitter = (\<lambda>s. [s]),
               PROFANITY_THRESHOLD = 0.86, WHITELIST = [''black'']\<rparr>"

definition index_hello :: "string \<Rightarrow> query_result" where
  "index_hello c =
     (if c = ''hello'' then Resolved [\<lparr>score = 0.5, metadata_text = Some ''hell''\<rparr>]
      else if c = ''world'' then Resolved [\<lparr>score = 0.5, metadata_text = Some ''whore''\<rparr>]
      else Resolved [\<lparr>score = 0.3, metadata_text = Some ''go to hell''\<rparr>])"

definition index_damn :: "string \<Rightarrow> query_result" where
  "index_damn c =
     (if c = ''damn'' then Resolved [\<lparr>score = 1, metadata_text = Some ''damn''\<rparr>]
      else Resolved [])"

definition index_foo_bar :: "string \<Rightarrow> query_result" where
  "index_foo_bar c =
     (if c = ''foo'' then Resolved [\<lparr>score = 1, metadata_text = Some ''foo''\<rparr>]
      else if c = ''bar'' then Resolved [\<lparr>score = 1, metadata_text = Some ''bar''\<rparr>]
      else Resolved [])"

definition index_empty :: "string \<Rightarrow> query_result" where
  "index_empty c = Resolved []"

definition index_down :: "string \<Rightarrow> query_result" where
  "index_down c = Rejected"

text \<open>
  A further index answers every chunk with the same entry at score 0.9, between the two
  thresholds.
\<close>

definition index_ninety :: "string \<Rightarrow> query_result" where
  "index_ninety c = Resolved [\<lparr>score = 0.9, metadata_text = Some ''go to hell''\<rparr>]"

text \<open>Two completion orders: the queries complete in call order, or in the reverse order.\<close>

definition in_call_order :: "nat \<Rightarrow> nat" where
  "in_call_order i = i"



text \<open>
  A splitter that returns the words of its input as one chunk, joined by single spaces,
  as the windowing library does for a text shorter than its window; and the index that
  answers 0.9 for every chunk, with that splitter.
\<close>

definition words_as_one_chunk :: "string \<Rightarrow> string list" where
  "words_as_one_chunk s = [join_sp (filter (\<lambda>w. w \<noteq> []) (split_ws s))]"

definition env_ninety_trimmed :: env where
  "env_ninety_trimmed =
     \<lparr>index_query = index_ninety, semanticSplitter = words_as_one_chunk,
      PROFANITY_THRESHOLD = 0.86, WHITELIST = [''black'']\<rparr>"

section \<open>Lemmas\<close>

subsection \<open>splitting and joining\<close>



lemma split_ws_not_Nil: "split_ws m \<noteq> []"
  by (induction m) (auto split: list.splits)

lemma split_ws_pieces: "\<forall>w\<in>set (split_ws m). \<forall>c\<in>set w. \<not> isWhiteSpace c"
proof (induction m)
  case Nil
  show ?case by simp
next
  case (Cons a m)
  show ?case
  proof (cases "split_ws m")
    case Nil
    then show ?thesis by simp
  next
    case (Cons w ws)
    with Cons.IH show ?thesis by auto
  qed
qed

lemma split_ws_word_space:
  "\<forall>c\<in>set w. \<not> isWhiteSpace c \<Longrightarrow> split_ws (w @ CHR 0x20 # rest) = w # split_ws rest"
proof (induction w)
  case Nil
  show ?case by (simp add: isWhiteSpace_def)
next
  case (Cons a w)
  then show ?case by simp
qed

lemma split_ws_word: "\<forall>c\<in>set w. \<not> isWhiteSpace c \<Longrightarrow> split_ws w = [w]"
  by (induction w) auto

lemma split_ws_join_sp:
  "ws \<noteq> [] \<Longrightarrow> \<forall>w\<in>set ws. \<forall>c\<in>set w. \<not> isWhiteSpace c \<Longrightarrow> split_ws (join_sp ws) = ws"
proof (induction ws rule: join_sp.induct)
  case 1
  then show ?case by simp
next
  case (2 w)
  then show ?case by (simp add: split_ws_word)
next
  case (3 w v ws)
  then show ?case by (simp add: split_ws_word_space)
qed

lemma split_ws_single: "length (split_ws m) = 1 \<Longrightarrow> split_ws m = [m]"
proof (induction m)
  case Nil
  show ?case by simp
next
  case (Cons c cs)
  show ?case
  proof (cases "isWhiteSpace c")
    case True
    with Cons.prems show ?thesis by (simp add: split_ws_not_Nil)
  next
    case False
    with Cons show ?thesis by (auto simp: split_ws_not_Nil split: list.splits)
  qed
qed



subsection \<open>sorting\<close>

lemma set_insert_by: "set (insert_by cmp x xs) = insert x (set xs)"
  by (induction xs) auto

lemma desc_insert_by:
  assumes "\<And>a b. cmp a b < 0 \<longleftrightarrow> k a > (k b :: real)"
  shows "sorted_wrt (\<lambda>a b. k a \<ge> k b) xs \<Longrightarrow> sorted_wrt (\<lambda>a b. k a \<ge> k b) (insert_by cmp x xs)"
proof (induction xs)
  case Nil
  show ?case by simp
next
  case (Cons y ys)
  show ?case
  proof (cases "cmp x y < 0")
    case True
    with Cons.prems assms show ?thesis by fastforce
  next
    case False
    with assms have "k x \<le> k y" by (simp add: not_less)
    with False Cons show ?thesis by (auto simp: set_insert_by)
  qed
qed

lemma foldl_insert_by:
  assumes "\<And>a b. cmp a b < 0 \<longleftrightarrow> k a > (k b :: real)"
  shows "sorted_wrt (\<lambda>a b. k a \<ge> k b) acc \<Longrightarrow>
    sorted_wrt (\<lambda>a b. k a \<ge> k b) (foldl (\<lambda>acc x. insert_by cmp x acc) acc xs)
    \<and> set (foldl (\<lambda>acc x. insert_by cmp x acc) acc xs) = set acc \<union> set xs"
proof (induction xs arbitrary: acc)
  case Nil
  then show ?case by simp
next
  case (Cons x xs)
  from Cons.prems have "sorted_wrt (\<lambda>a b. k a \<ge> k b) (insert_by cmp x acc)"
    by (rule desc_insert_by [OF assms])
  from Cons.IH [OF this] show ?case by (simp add: set_insert_by)
qed

lemma set_map_filter_id: "set (List.map_filter id xs) = {x. Some x \<in> set xs}"
  by (induction xs) (auto simp: List.map_filter_simps split: option.splits)

lemma first_of_js_sort_defined:
  assumes cmp: "\<And>a b. cmp a b < 0 \<longleftrightarrow> k a > (k b :: real)"
    and ne: "List.map_filter id xs \<noteq> []"
  shows "\<exists>y. first_of (js_sort cmp xs) = Some (Some y) \<and> Some y \<in> set xs
           \<and> (\<forall>x. Some x \<in> set xs \<longrightarrow> k x \<le> k y)"
proof -
  let ?ds = "List.map_filter id xs"
  let ?s = "foldl (\<lambda>acc x. insert_by cmp x acc) [] ?ds"
  have srt: "sorted_wrt (\<lambda>a b. k a \<ge> k b) ?s" and st: "set ?s = set ?ds"
    using foldl_insert_by [OF cmp, where acc = "[]" and xs = ?ds] by simp_all
  from ne st obtain y ys where s: "?s = y # ys" by (cases ?s) auto
  from srt s have le: "\<forall>x\<in>set ?s. k x \<le> k y" by auto
  from s have y: "y \<in> set ?s" by simp
  from s have "first_of (js_sort cmp xs) = Some (Some y)" by (simp add: js_sort_def)
  with le y show ?thesis unfolding st set_map_filter_id by blast
qed

lemma first_of_js_sort_undefined:
  assumes "List.map_filter id xs = []"
  shows "first_of (js_sort cmp xs) = (if xs = [] then None else Some None)"
proof -
  from assms have "set (List.map_filter id xs) = {}" by simp
  then have none: "\<forall>x\<in>set xs. x = None"
    unfolding set_map_filter_id by (metis empty_iff mem_Collect_eq option.exhaust)
  then have "filter (\<lambda>x. x = None) xs = xs" by simp
  with assms have "js_sort cmp xs = xs" by (simp add: js_sort_def)
  with none show ?thesis by (cases xs) auto
qed

lemma by_score_neg: "by_score a b < 0 \<longleftrightarrow> score a > score b"
  by (simp add: by_score_def)

lemma by_flag_score_neg: "by_flag_score a b < 0 \<longleftrightarrow> flag_score a > flag_score b"
  by (simp add: by_flag_score_def)

subsection \<open>the set\<close>

lemma mset_completion_order: "mset (completion_order latency xs) = mset xs"
proof -
  have "mset (map snd (sort_key f ys)) = mset (map snd ys)"
    for f :: "nat \<times> 'a \<Rightarrow> nat" and ys by simp
  then have "mset (completion_order latency xs) = mset (map snd (enumerate 0 xs))"
    unfolding completion_order_def .
  then show ?thesis by (simp only: map_snd_enumerate)
qed

text \<open>Every permutation \<open>p\<close> of the query numbers is a completion order.\<close>

lemma every_completion_order:
  fixes xs :: "'a list"
  assumes d: "distinct p" and s: "set p = {0..<length xs}"
  shows "\<exists>latency. completion_order latency xs = map (\<lambda>i. xs ! i) p"
proof -
  let ?n = "length xs"
  from d have inj: "inj_on ((!) p) {..<length p}"
    by (auto simp: inj_on_def nth_eq_iff_index_eq)
  define latency where "latency = the_inv_into {..<length p} ((!) p)"
  have lat: "latency (p ! k) = k" if "k < length p" for k
    unfolding latency_def using inj that by (simp add: the_inv_into_f_f)
  let ?f = "\<lambda>q :: nat \<times> 'a. latency (fst q)"
  let ?ys = "map (\<lambda>i. (i, xs ! i)) p"
  have en: "enumerate 0 xs = map (\<lambda>i. (i, xs ! i)) [0..<?n]"
    by (rule nth_equalityI) (simp_all add: nth_enumerate_eq)
  from d s have "mset p = mset [0..<?n]"
    using set_eq_iff_mset_eq_distinct [of p "[0..<?n]"] by simp
  then have "image_mset (\<lambda>i. (i, xs ! i)) (mset p) = image_mset (\<lambda>i. (i, xs ! i)) (mset [0..<?n])"
    by (rule arg_cong)
  then have m: "mset (enumerate 0 xs) = mset ?ys" unfolding en by simp
  have "map latency p = map (\<lambda>k. latency (p ! k)) [0..<length p]"
    by (rule nth_equalityI) simp_all
  also have "\<dots> = [0..<length p]"
    by (rule nth_equalityI) (simp_all add: lat)
  finally have "sorted (map latency p)" by simp
  then have srt: "sorted (map ?f ?ys)" by (simp add: comp_def)
  have "inj_on ?f (set (enumerate 0 xs))"
  proof (rule inj_onI)
    fix a b assume a: "a \<in> set (enumerate 0 xs)" and b: "b \<in> set (enumerate 0 xs)"
      and eq: "?f a = ?f b"
    from a b have fa: "fst a \<in> set p" "fst b \<in> set p" "snd a = xs ! fst a" "snd b = xs ! fst b"
      unfolding s by (auto simp: in_set_enumerate_eq)
    from fa(1) obtain i where i: "i < length p" "p ! i = fst a" unfolding in_set_conv_nth by blast
    from fa(2) obtain j where j: "j < length p" "p ! j = fst b" unfolding in_set_conv_nth by blast
    from lat [OF i(1)] lat [OF j(1)] eq i(2) j(2) have "i = j" by simp
    with i j fa show "a = b" by (simp add: prod_eq_iff)
  qed
  from sort_key_inj_key_eq [OF m this srt] have "sort_key ?f (enumerate 0 xs) = ?ys" .
  then have "completion_order latency xs = map (\<lambda>i. xs ! i) p"
    by (simp add: completion_order_def comp_def)
  then show ?thesis by blast
qed

lemma fold_resume:
  "\<forall>r\<in>fst ` set s. r < n \<Longrightarrow>
   map snd (snd (fold resume fs (n, s))) = map snd s @ List.map_filter id fs"
proof (induction fs arbitrary: n s)
  case Nil
  show ?case by (simp add: List.map_filter_simps)
next
  case (Cons f fs)
  show ?case
  proof (cases f)
    case None
    with Cons show ?thesis by (simp add: List.map_filter_simps)
  next
    case (Some x)
    from Cons.prems have "n \<notin> fst ` set s" by auto
    then have add: "set_add (n, x) s = s @ [(n, x)]" by (simp add: set_add_def)
    from Cons.prems have "\<forall>r\<in>fst ` set (s @ [(n, x)]). r < Suc n" by auto
    from Cons.IH [OF this] Some add show ?thesis by (simp add: List.map_filter_simps)
  qed
qed

lemma map_snd_flaggedFor:
  "map snd (flaggedFor e latency m)
     = List.map_filter id (completion_order latency (map flag_of (callbacks e m)))"
  using fold_resume [of "[]" 0] by (simp add: flaggedFor_def)

lemma mset_flaggedFor:
  "mset (map snd (flaggedFor e latency m)) = mset (List.map_filter id (map flag_of (callbacks e m)))"
proof -
  have "mset (List.map_filter id xs) = image_mset the (filter_mset (\<lambda>x. x \<noteq> None) (mset xs))"
    for xs :: "flagged option list"
    by (induction xs) (auto simp: List.map_filter_simps split: option.splits)
  then show ?thesis by (simp add: map_snd_flaggedFor mset_completion_order)
qed

lemma set_flaggedFor:
  "snd ` set (flaggedFor e latency m) = {f. Some f \<in> flag_of ` set (callbacks e m)}"
proof -
  have "snd ` set (flaggedFor e latency m) = set_mset (mset (map snd (flaggedFor e latency m)))"
    by simp
  also have "\<dots> = set (List.map_filter id (map flag_of (callbacks e m)))"
    by (simp only: mset_flaggedFor set_mset_mset)
  also have "\<dots> = {f. Some f \<in> flag_of ` set (callbacks e m)}"
    by (simp add: set_map_filter_id)
  finally show ?thesis .
qed



subsection \<open>Promise.all\<close>

lemma promise_all_map_Inr: "promise_all (map Inr xs) = Inr xs"
  by (induction xs) auto

lemma promise_all_Inl:
  "\<forall>p\<in>set ps. p = Inl x \<or> (\<exists>v. p = Inr v) \<Longrightarrow> Inl x \<in> set ps \<Longrightarrow> promise_all ps = Inl x"
proof (induction ps)
  case Nil
  then show ?case by simp
next
  case (Cons p ps)
  show ?case
  proof (cases p)
    case (Inl y)
    with Cons.prems show ?thesis by auto
  next
    case (Inr v)
    with Cons show ?thesis by auto
  qed
qed

lemma returned_wordCallback:
  "map_sum id snd (wordCallback e c) =
     (case index_query e c of
        Rejected \<Rightarrow> Inl QueryError
      | Resolved vs \<Rightarrow> Inr (Some \<lparr>score = 0, metadata_text = None\<rparr>))"
  by (simp add: wordCallback_def split: query_result.splits)

lemma returned_semanticCallback:
  "map_sum id snd (semanticCallback e c) =
     (case index_query e c of Rejected \<Rightarrow> Inl QueryError | Resolved vs \<Rightarrow> Inr (first_of vs))"
  by (simp add: semanticCallback_def split: query_result.splits)

lemma flag_of_wordCallback:
  "flag_of (wordCallback e c) =
     (case index_query e c of
        Resolved (v # vs) \<Rightarrow>
          if 0.95 < score v then Some \<lparr>flag_text = metadata_text v, flag_score = score v\<rparr> else None
      | _ \<Rightarrow> None)"
  by (simp add: wordCallback_def split: query_result.splits list.splits)

lemma flag_of_semanticCallback:
  "flag_of (semanticCallback e c) =
     (case index_query e c of
        Resolved (v # vs) \<Rightarrow>
          if PROFANITY_THRESHOLD e < score v
          then Some \<lparr>flag_text = metadata_text v, flag_score = score v\<rparr> else None
      | _ \<Rightarrow> None)"
  by (simp add: semanticCallback_def split: query_result.splits list.splits)

lemma vectorRes_rejected:
  assumes "c \<in> set (queries e m)" "index_query e c = Rejected"
  shows "vectorRes e m = Inl QueryError"
proof -
  let ?ps = "map (map_sum id snd) (callbacks e m)"
  have all: "\<forall>p\<in>set ?ps. p = Inl QueryError \<or> (\<exists>v. p = Inr v)"
    by (auto simp: callbacks_def returned_wordCallback returned_semanticCallback
          split: query_result.splits)
  from assms(2) have "map_sum id snd (wordCallback e c) = Inl QueryError"
    "map_sum id snd (semanticCallback e c) = Inl QueryError"
    by (simp_all add: returned_wordCallback returned_semanticCallback)
  with assms(1) have "Inl QueryError \<in> set ?ps"
    by (force simp: callbacks_def queries_def)
  with all show ?thesis unfolding vectorRes_def by (rule promise_all_Inl)
qed

lemma vectorRes_resolved:
  assumes "\<forall>c\<in>set (queries e m). index_query e c \<noteq> Rejected"
  shows "vectorRes e m =
    Inr (map (\<lambda>c. Some \<lparr>score = 0, metadata_text = None\<rparr>) (splitTextIntoWords m)
         @ map (\<lambda>c. case index_query e c of Rejected \<Rightarrow> None | Resolved vs \<Rightarrow> first_of vs)
             (splitTextIntoSemantics (semanticSplitter e) m))"
proof -
  have w: "map_sum id snd (wordCallback e c) = Inr (Some \<lparr>score = 0, metadata_text = None\<rparr>)"
    if "c \<in> set (splitTextIntoWords m)" for c
    using that assms by (auto simp: queries_def returned_wordCallback split: query_result.splits)
  have s: "map_sum id snd (semanticCallback e c)
             = Inr (case index_query e c of Rejected \<Rightarrow> None | Resolved vs \<Rightarrow> first_of vs)"
    if "c \<in> set (splitTextIntoSemantics (semanticSplitter e) m)" for c
    using that assms by (auto simp: queries_def returned_semanticCallback split: query_result.splits)
  let ?vs = "map (\<lambda>c. Some \<lparr>score = 0, metadata_text = None\<rparr>) (splitTextIntoWords m)
         @ map (\<lambda>c. case index_query e c of Rejected \<Rightarrow> None | Resolved vs \<Rightarrow> first_of vs)
             (splitTextIntoSemantics (semanticSplitter e) m)"
  have eq: "map (map_sum id snd) (callbacks e m) = map Inr ?vs"
    using w s by (simp add: callbacks_def)
  show ?thesis unfolding vectorRes_def eq by (rule promise_all_map_Inr)
qed

lemma vectorRes_has_word:
  "vectorRes e m = Inr res \<Longrightarrow> Some \<lparr>score = 0, metadata_text = None\<rparr> \<in> set res"
proof -
  assume r: "vectorRes e m = Inr res"
  have "\<forall>c\<in>set (queries e m). index_query e c \<noteq> Rejected"
  proof (rule ccontr)
    assume "\<not> ?thesis"
    then obtain c where "c \<in> set (queries e m)" "index_query e c = Rejected" by auto
    from vectorRes_rejected [OF this] r show False by simp
  qed
  from vectorRes_resolved [OF this] r
  have "res = map (\<lambda>c. Some \<lparr>score = 0, metadata_text = None\<rparr>) (splitTextIntoWords m)
         @ map (\<lambda>c. case index_query e c of Rejected \<Rightarrow> None | Resolved vs \<Rightarrow> first_of vs)
             (splitTextIntoSemantics (semanticSplitter e) m)" by simp
  moreover obtain w ws where "splitTextIntoWords m = w # ws"
    using split_ws_not_Nil [of m] by (cases "split_ws m") (auto simp: splitTextIntoWords_def)
  ultimately show ?thesis by simp
qed

lemma classify_rejected:
  "c \<in> set (queries e m) \<Longrightarrow> index_query e c = Rejected \<Longrightarrow> classify e latency m = Inl QueryError"
  by (simp add: classify_def vectorRes_rejected)

lemma classify_flagged:
  assumes res: "vectorRes e m = Inr res" and ne: "flaggedFor e latency m \<noteq> []"
  shows "\<exists>f. classify e latency m = Inr (Classification True (flag_score f) (flag_text f))
            \<and> f \<in> snd ` set (flaggedFor e latency m)
            \<and> (\<forall>g\<in>snd ` set (flaggedFor e latency m). flag_score g \<le> flag_score f)"
proof -
  let ?xs = "map (Some \<circ> snd) (flaggedFor e latency m)"
  have mf: "List.map_filter id ?xs = map snd (flaggedFor e latency m)"
    by (induction "flaggedFor e latency m") (simp_all add: List.map_filter_def)
  with ne have "List.map_filter id ?xs \<noteq> []" by simp
  from first_of_js_sort_defined [of by_flag_score flag_score, OF by_flag_score_neg this]
  obtain f where f: "first_of (js_sort by_flag_score ?xs) = Some (Some f)" "Some f \<in> set ?xs"
    "\<forall>x. Some x \<in> set ?xs \<longrightarrow> flag_score x \<le> flag_score f" by blast
  from f(1) res ne have "classify e latency m = Inr (Classification True (flag_score f) (flag_text f))"
    by (simp add: classify_def)
  moreover from f(2) have "f \<in> snd ` set (flaggedFor e latency m)" by auto
  moreover from f(3) have "\<forall>g\<in>snd ` set (flaggedFor e latency m). flag_score g \<le> flag_score f"
    by auto
  ultimately show ?thesis by blast
qed

lemma classify_clean:
  assumes res: "vectorRes e m = Inr res" and emp: "flaggedFor e latency m = []"
  shows "\<exists>v. classify e latency m = Inr (Classification False (score v) None)
            \<and> Some v \<in> set res \<and> (\<forall>u. Some u \<in> set res \<longrightarrow> score u \<le> score v)"
proof -
  from vectorRes_has_word [OF res] have "set (List.map_filter id res) \<noteq> {}"
    unfolding set_map_filter_id by blast
  then have "List.map_filter id res \<noteq> []" by auto
  from first_of_js_sort_defined [of by_score score, OF by_score_neg this]
  obtain v where v: "first_of (js_sort by_score res) = Some (Some v)" "Some v \<in> set res"
    "\<forall>u. Some u \<in> set res \<longrightarrow> score u \<le> score v" by blast
  from v(1) res emp have "classify e latency m = Inr (Classification False (score v) None)"
    by (simp add: classify_def)
  with v show ?thesis by blast
qed

lemma app_post_valid:
  "passes_validation req m \<Longrightarrow>
   app_post e latency req =
     (case classify e latency (filterWhitelist (WHITELIST e) m) of
        Inl x \<Rightarrow> Json_error 500 ''Something went wrong.'' | Inr r \<Rightarrow> r,
      queries e (filterWhitelist (WHITELIST e) m))"
  by (simp add: passes_validation_def app_post_def Let_def)

subsection \<open>scores and completion orders\<close>

lemma set_map_filter: "set (List.map_filter f xs) = {y. \<exists>x\<in>set xs. f x = Some y}"
  by (induction xs) (auto simp: List.map_filter_simps split: option.splits)

lemma top_score_first:
  "top_score e c = Some s \<longleftrightarrow>
     (\<exists>u. (case index_query e c of Rejected \<Rightarrow> None | Resolved vs \<Rightarrow> first_of vs) = Some u
          \<and> score u = s)"
  by (auto simp: top_score_def split: query_result.splits)

lemma flag_of_None:
  "flag_of (wordCallback e c) = None \<longleftrightarrow> (\<forall>s. top_score e c = Some s \<longrightarrow> s \<le> 0.95)"
  "flag_of (semanticCallback e c) = None
     \<longleftrightarrow> (\<forall>s. top_score e c = Some s \<longrightarrow> s \<le> PROFANITY_THRESHOLD e)"
  unfolding flag_of_wordCallback flag_of_semanticCallback
  by (auto simp: top_score_def split: query_result.splits list.splits)



section \<open>Properties of the handler\<close>

text \<open>
  Claim C10. Splitting any string, the empty one included, into word chunks gives at
  least one chunk. So an array \<^verbatim>\<open>vectorRes\<close> that \<^verbatim>\<open>Promise.all\<close> delivers is never empty
  and, once sorted, starts with a defined element whose score the clean case reports:
  the handler never fails for want of a top score (it never throws the TypeError of
  reading \<^verbatim>\<open>.score\<close> of undefined).
\<close>

theorem score_array_never_empty:
  "1 \<le> length (splitTextIntoWords m)
   \<and> (\<forall>res. vectorRes e m = Inr res \<longrightarrow>
         res \<noteq> [] \<and> (\<exists>v. first_of (js_sort by_score res) = Some (Some v)))
   \<and> classify e latency m \<noteq> Inl TypeError"
proof (intro conjI allI impI)
  show "1 \<le> length (splitTextIntoWords m)"
    using split_ws_not_Nil [of m] by (cases "split_ws m") (simp_all add: splitTextIntoWords_def)
next
  fix res assume "vectorRes e m = Inr res"
  from vectorRes_has_word [OF this] show "res \<noteq> []" by auto
next
  fix res assume "vectorRes e m = Inr res"
  from vectorRes_has_word [OF this] have "set (List.map_filter id res) \<noteq> {}"
    unfolding set_map_filter_id by blast
  then have "List.map_filter id res \<noteq> []" by auto
  from first_of_js_sort_defined [of by_score score, OF by_score_neg this]
  show "\<exists>v. first_of (js_sort by_score res) = Some (Some v)" by blast
next
  show "classify e latency m \<noteq> Inl TypeError"
  proof (cases "vectorRes e m")
    case (Inl x)
    then have "x = QueryError"
      by (metis vectorRes_rejected vectorRes_resolved sum.inject(1) sum.distinct(1))
    with Inl show ?thesis by (simp add: classify_def)
  next
    case (Inr res)
    show ?thesis
    proof (cases "flaggedFor e latency m = []")
      case True
      from classify_clean [OF Inr True] show ?thesis by auto
    next
      case False
      from classify_flagged [OF Inr False] show ?thesis by auto
    qed
  qed
qed

theorem score_array_never_empty_witness:
  "vectorRes (env_of index_empty) [] = Inr [Some \<lparr>score = 0, metadata_text = None\<rparr>]
   \<and> 1 \<le> length (splitTextIntoWords [])
   \<and> [Some \<lparr>score = 0, metadata_text = None\<rparr>] \<noteq> []
   \<and> (\<exists>v. first_of (js_sort by_score [Some \<lparr>score = 0, metadata_text = None\<rparr>]) = Some (Some v))
   \<and> classify (env_of index_empty) in_call_order [] \<noteq> Inl TypeError"
proof -
  have r: "vectorRes (env_of index_empty) [] = Inr [Some \<lparr>score = 0, metadata_text = None\<rparr>]"
    by code_simp
  from score_array_never_empty [of "[]" "env_of index_empty" in_call_order] r
  show ?thesis by blast
qed

text \<open>
  Claim C7: a text with exactly one token has no semantic chunks, so only the word
  threshold can make the answer \<^verbatim>\<open>isProfanity: true\<close>. The comment in
  \<^verbatim>\<open>splitTextIntoSemantics\<close> says the same (no semantics for single words), but its guard
  counts the pieces of \<^verbatim>\<open>split(/\s/)\<close>, and a separator at the end of the text adds an empty
  piece. The message \<^verbatim>\<open>"damn "\<close> has one word and two pieces: it passes the guards, the
  splitter is called, and with every chunk scoring 0.9 no word is flagged while the
  semantic chunk is, so the answer is \<^verbatim>\<open>isProfanity: true\<close> on the semantic threshold alone.
\<close>

theorem single_word_gets_semantic_chunk:
  "filter (\<lambda>w. w \<noteq> []) (split_ws ''damn '') = [''damn'']
   \<and> splitTextIntoSemantics (semanticSplitter env_ninety_trimmed) ''damn '' = [''damn'']
   \<and> flag_of (wordCallback env_ninety_trimmed ''damn'') = None
   \<and> flag_of (wordCallback env_ninety_trimmed []) = None
   \<and> flag_of (semanticCallback env_ninety_trimmed ''damn'')
       = Some \<lparr>flag_text = Some ''go to hell'', flag_score = 9 / 10\<rparr>
   \<and> app_post env_ninety_trimmed in_call_order (json_request ''damn '')
       = (Classification True (9 / 10) (Some ''go to hell''), [''damn'', [], ''damn''])"
  by code_simp

text \<open>
  Claim C8. The whitelist filter splits the message at white space, drops exactly the
  pieces whose lower-cased form is a member of the whitelist, and joins the rest with
  single spaces. Split again, the result gives back the pieces that were kept (one empty
  piece when none was kept), and with an empty whitelist the pieces of the message
  itself.
\<close>

theorem filterWhitelist_tokens:
  "filterWhitelist whitelist m
     = join_sp (filter (\<lambda>w. toLowerCase w \<notin> set whitelist) (split_ws m))
   \<and> split_ws (filterWhitelist whitelist m)
     = (if filter (\<lambda>w. toLowerCase w \<notin> set whitelist) (split_ws m) = [] then [[]]
        else filter (\<lambda>w. toLowerCase w \<notin> set whitelist) (split_ws m))
   \<and> split_ws (filterWhitelist [] m) = split_ws m"
proof -
  let ?kept = "\<lambda>wl. filter (\<lambda>w. toLowerCase w \<notin> set wl) (split_ws m)"
  have pieces: "\<forall>w\<in>set (?kept wl). \<forall>c\<in>set w. \<not> isWhiteSpace c" for wl
    using split_ws_pieces [of m] by auto
  have split: "split_ws (filterWhitelist wl m) = (if ?kept wl = [] then [[]] else ?kept wl)" for wl
  proof (cases "?kept wl = []")
    case True
    then show ?thesis by (simp add: filterWhitelist_def)
  next
    case False
    from split_ws_join_sp [OF False pieces] False show ?thesis
      by (simp add: filterWhitelist_def)
  qed
  have "?kept [] = split_ws m" by simp
  with split [of "[]"] have "split_ws (filterWhitelist [] m) = split_ws m"
    by (simp add: split_ws_not_Nil)
  with split [of whitelist] show ?thesis by (simp add: filterWhitelist_def)
qed

theorem filterWhitelist_tokens_witness:
  "filterWhitelist [''black''] ''a BLACK  cat'' = ''a  cat''
   \<and> split_ws (filterWhitelist [''black''] ''a BLACK  cat'') = [''a'', [], ''cat'']
   \<and> split_ws (filterWhitelist [] ''a BLACK  cat'') = [''a'', ''BLACK'', [], ''cat'']"
proof -
  have k: "filter (\<lambda>w. toLowerCase w \<notin> set [''black'']) (split_ws ''a BLACK  cat'') = [''a'', [], ''cat'']"
    by code_simp
  have j: "join_sp [''a'', [], ''cat''] = ''a  cat''" by code_simp
  have s: "split_ws ''a BLACK  cat'' = [''a'', ''BLACK'', [], ''cat'']" by code_simp
  note t = filterWhitelist_tokens [of "[''black'']" "''a BLACK  cat''", unfolded k]
  from t have a: "filterWhitelist [''black''] ''a BLACK  cat'' = join_sp [''a'', [], ''cat'']"
    by (rule conjunct1)
  from t have "split_ws (filterWhitelist [''black''] ''a BLACK  cat'')
      = (if [''a'', [], ''cat''] = [] then [[]] else [''a'', [], ''cat''])"
    by (rule conjunct1 [OF conjunct2])
  also have "\<dots> = [''a'', [], ''cat'']" by simp
  finally have b: "split_ws (filterWhitelist [''black''] ''a BLACK  cat'') = [''a'', [], ''cat'']" .
  from t have c: "split_ws (filterWhitelist [] ''a BLACK  cat'') = split_ws ''a BLACK  cat''"
    by (rule conjunct2 [OF conjunct2])
  from a [unfolded j] b c [unfolded s] show ?thesis by (intro conjI)
qed

text \<open>
  Claim C6. The word callback adds an object to the set exactly when the index returns a
  vector whose score is strictly greater than 0.95, the semantic callback exactly when
  the score is strictly greater than \<^verbatim>\<open>PROFANITY_THRESHOLD\<close>; the object carries the
  text and the score of that vector. Whatever the completion order, the contents of the
  set are the objects so described, over the word chunks and the semantic chunks.
\<close>

theorem flagged_iff_above_threshold:
  "flag_of (wordCallback e c)
     = (case index_query e c of
          Resolved (v # vs) \<Rightarrow>
            if 0.95 < score v then Some \<lparr>flag_text = metadata_text v, flag_score = score v\<rparr>
            else None
        | _ \<Rightarrow> None)
   \<and> flag_of (semanticCallback e c)
     = (case index_query e c of
          Resolved (v # vs) \<Rightarrow>
            if PROFANITY_THRESHOLD e < score v
            then Some \<lparr>flag_text = metadata_text v, flag_score = score v\<rparr> else None
        | _ \<Rightarrow> None)
   \<and> (f \<in> snd ` set (flaggedFor e latency m) \<longleftrightarrow>
        (\<exists>w v vs. w \<in> set (splitTextIntoWords m) \<and> index_query e w = Resolved (v # vs)
            \<and> 0.95 < score v \<and> f = \<lparr>flag_text = metadata_text v, flag_score = score v\<rparr>)
        \<or> (\<exists>s v vs. s \<in> set (splitTextIntoSemantics (semanticSplitter e) m)
            \<and> index_query e s = Resolved (v # vs)
            \<and> PROFANITY_THRESHOLD e < score v
            \<and> f = \<lparr>flag_text = metadata_text v, flag_score = score v\<rparr>))"
proof (intro conjI)
  show "flag_of (wordCallback e c)
     = (case index_query e c of
          Resolved (v # vs) \<Rightarrow>
            if 0.95 < score v then Some \<lparr>flag_text = metadata_text v, flag_score = score v\<rparr>
            else None
        | _ \<Rightarrow> None)"
    by (rule flag_of_wordCallback)
  show "flag_of (semanticCallback e c)
     = (case index_query e c of
          Resolved (v # vs) \<Rightarrow>
            if PROFANITY_THRESHOLD e < score v
            then Some \<lparr>flag_text = metadata_text v, flag_score = score v\<rparr> else None
        | _ \<Rightarrow> None)"
    by (rule flag_of_semanticCallback)
  have w: "flag_of (wordCallback e w) = Some f \<longleftrightarrow>
      (\<exists>v vs. index_query e w = Resolved (v # vs)
            \<and> 0.95 < score v \<and> f = \<lparr>flag_text = metadata_text v, flag_score = score v\<rparr>)" for w
    unfolding flag_of_wordCallback
    by (auto split: query_result.splits list.splits)
  have s: "flag_of (semanticCallback e s) = Some f \<longleftrightarrow>
      (\<exists>v vs. index_query e s = Resolved (v # vs)
            \<and> PROFANITY_THRESHOLD e < score v
            \<and> f = \<lparr>flag_text = metadata_text v, flag_score = score v\<rparr>)" for s
    unfolding flag_of_semanticCallback
    by (auto split: query_result.splits list.splits)
  have "f \<in> snd ` set (flaggedFor e latency m) \<longleftrightarrow>
      (\<exists>w\<in>set (splitTextIntoWords m). flag_of (wordCallback e w) = Some f)
      \<or> (\<exists>s\<in>set (splitTextIntoSemantics (semanticSplitter e) m).
            flag_of (semanticCallback e s) = Some f)"
    unfolding set_flaggedFor
    by (auto simp: callbacks_def image_Un image_image eq_commute [of "Some f"])
  then show "f \<in> snd ` set (flaggedFor e latency m) \<longleftrightarrow>
        (\<exists>w v vs. w \<in> set (splitTextIntoWords m) \<and> index_query e w = Resolved (v # vs)
            \<and> 0.95 < score v \<and> f = \<lparr>flag_text = metadata_text v, flag_score = score v\<rparr>)
        \<or> (\<exists>s v vs. s \<in> set (splitTextIntoSemantics (semanticSplitter e) m)
            \<and> index_query e s = Resolved (v # vs)
            \<and> PROFANITY_THRESHOLD e < score v
            \<and> f = \<lparr>flag_text = metadata_text v, flag_score = score v\<rparr>)"
    unfolding w s by blast
qed

theorem flagged_iff_above_threshold_witness:
  "flag_of (wordCallback (env_of index_ninety) ''hell'') = None
   \<and> flag_of (semanticCallback (env_of index_ninety) ''hell'')
       = Some \<lparr>flag_text = Some ''go to hell'', flag_score = 0.9\<rparr>"
proof -
  have q: "index_query (env_of index_ninety) ''hell''
             = Resolved [\<lparr>score = 0.9, metadata_text = Some ''go to hell''\<rparr>]"
    by (simp add: env_of_def index_ninety_def)
  have thr: "PROFANITY_THRESHOLD (env_of index_ninety) = 0.86" by (simp add: env_of_def)
  note t = flagged_iff_above_threshold [of "env_of index_ninety" "''hell''"
      "\<lparr>flag_text = None, flag_score = 0\<rparr>" in_call_order "[]", unfolded q thr]
  from t have "flag_of (wordCallback (env_of index_ninety) ''hell'') =
     (case Resolved [\<lparr>score = 0.9, metadata_text = Some ''go to hell''\<rparr>] of
          Resolved (v # vs) \<Rightarrow>
            if 0.95 < score v then Some \<lparr>flag_text = metadata_text v, flag_score = score v\<rparr>
            else None
        | _ \<Rightarrow> None)" by (rule conjunct1)
  then have a: "flag_of (wordCallback (env_of index_ninety) ''hell'') = None" by simp
  from t have "flag_of (semanticCallback (env_of index_ninety) ''hell'') =
     (case Resolved [\<lparr>score = 0.9, metadata_text = Some ''go to hell''\<rparr>] of
          Resolved (v # vs) \<Rightarrow>
            if 0.86 < score v then Some \<lparr>flag_text = metadata_text v, flag_score = score v\<rparr>
            else None
        | _ \<Rightarrow> None)" by (rule conjunct1 [OF conjunct2])
  then have b: "flag_of (semanticCallback (env_of index_ninety) ''hell'')
       = Some \<lparr>flag_text = Some ''go to hell'', flag_score = 0.9\<rparr>" by simp
  from a b show ?thesis by (intro conjI)
qed

text \<open>
  Claim C3. For a request that passes validation and whose queries all resolve, the
  answer has \<^verbatim>\<open>isProfanity: true\<close> if and only if the set of flagged objects is not
  empty; then its score is the greatest score in the set, and \<^verbatim>\<open>flaggedFor\<close> is the
  text of a member of the set with that score.
\<close>

theorem profane_iff_flagged:
  assumes "passes_validation req m"
    and "\<forall>c\<in>set (queries e (filterWhitelist (WHITELIST e) m)). index_query e c \<noteq> Rejected"
  shows "((\<exists>s t. fst (app_post e latency req) = Classification True s t)
            \<longleftrightarrow> flaggedFor e latency (filterWhitelist (WHITELIST e) m) \<noteq> [])
    \<and> (flaggedFor e latency (filterWhitelist (WHITELIST e) m) \<noteq> [] \<longrightarrow>
         (\<exists>f\<in>snd ` set (flaggedFor e latency (filterWhitelist (WHITELIST e) m)).
            fst (app_post e latency req) = Classification True (flag_score f) (flag_text f)
            \<and> flag_score f
                = Max (flag_score ` snd ` set (flaggedFor e latency (filterWhitelist (WHITELIST e) m)))))"
proof -
  let ?m = "filterWhitelist (WHITELIST e) m"
  let ?F = "snd ` set (flaggedFor e latency ?m)"
  from vectorRes_resolved [OF assms(2)] obtain res where res: "vectorRes e ?m = Inr res" by blast
  have post: "fst (app_post e latency req)
      = (case classify e latency ?m of Inl x \<Rightarrow> Json_error 500 ''Something went wrong.'' | Inr r \<Rightarrow> r)"
    by (simp add: app_post_valid [OF assms(1)])
  show ?thesis
  proof (cases "flaggedFor e latency ?m = []")
    case True
    from classify_clean [OF res True] post True show ?thesis by auto
  next
    case False
    from classify_flagged [OF res False] obtain f where
      f: "classify e latency ?m = Inr (Classification True (flag_score f) (flag_text f))"
      "f \<in> ?F" "\<forall>g\<in>?F. flag_score g \<le> flag_score f" by blast
    from f(2,3) have "Max (flag_score ` ?F) = flag_score f"
      by (intro Max_eqI) auto
    with f post False show ?thesis by auto
  qed
qed

theorem profane_iff_flagged_witness:
  "fst (app_post (env_of index_foo_bar) in_call_order (json_request ''say foo''))
     = Classification True 1 (Some ''foo'')
   \<and> (\<exists>f\<in>snd ` set (flaggedFor (env_of index_foo_bar) in_call_order ''say foo'').
         fst (app_post (env_of index_foo_bar) in_call_order (json_request ''say foo''))
           = Classification True (flag_score f) (flag_text f)
         \<and> flag_score f
             = Max (flag_score ` snd ` set (flaggedFor (env_of index_foo_bar) in_call_order ''say foo'')))"
proof -
  have v: "passes_validation (json_request ''say foo'') ''say foo''" by code_simp
  have m: "filterWhitelist (WHITELIST (env_of index_foo_bar)) ''say foo'' = ''say foo''"
    by code_simp
  have r: "\<forall>c\<in>set (queries (env_of index_foo_bar)
      (filterWhitelist (WHITELIST (env_of index_foo_bar)) ''say foo'')).
        index_query (env_of index_foo_bar) c \<noteq> Rejected"
    by (simp add: env_of_def index_foo_bar_def)
  have ne: "flaggedFor (env_of index_foo_bar) in_call_order ''say foo'' \<noteq> []" by code_simp
  have p: "fst (app_post (env_of index_foo_bar) in_call_order (json_request ''say foo''))
     = Classification True 1 (Some ''foo'')" by code_simp
  from profane_iff_flagged [OF v r, of in_call_order, unfolded m] ne p show ?thesis by blast
qed

text \<open>
  Claim C1, as stated: when no chunk scores above its threshold, the reported score is the
  greatest score observed over all queried chunks, word chunks included. The handler
  does not do that: the word callback returns \<^verbatim>\<open>{ score: 0 }\<close> whatever the index
  answered. In the scenario below the words score 0.5 and the only semantic chunk 0.3;
  nothing is flagged, the greatest observed score is 0.5, and the handler reports 0.3.
\<close>

theorem clean_score_counterexample:
  "fst (app_post (env_of index_hello) in_call_order (json_request ''hello world''))
     = Classification False (3 / 10) None
   \<and> List.map_filter (top_score (env_of index_hello))
       (snd (app_post (env_of index_hello) in_call_order (json_request ''hello world'')))
     = [1 / 2, 1 / 2, 3 / 10]
   \<and> flaggedFor (env_of index_hello) in_call_order ''hello world'' = []"
  by code_simp

text \<open>
  Claim C1, amended: for a request that passes validation, whose queries all resolve and
  in which no chunk scores above its threshold, the answer has \<^verbatim>\<open>isProfanity: false\<close>
  and its score is the greatest of 0 and the scores returned for the semantic chunks.
\<close>

theorem clean_score:
  assumes "passes_validation req m"
    and "\<forall>c\<in>set (queries e (filterWhitelist (WHITELIST e) m)). index_query e c \<noteq> Rejected"
    and "\<forall>c\<in>set (splitTextIntoWords (filterWhitelist (WHITELIST e) m)).
           \<forall>s. top_score e c = Some s \<longrightarrow> s \<le> 0.95"
    and "\<forall>c\<in>set (splitTextIntoSemantics (semanticSplitter e) (filterWhitelist (WHITELIST e) m)).
           \<forall>s. top_score e c = Some s \<longrightarrow> s \<le> PROFANITY_THRESHOLD e"
  shows "fst (app_post e latency req)
    = Classification False
        (Max (set (0 # List.map_filter (top_score e)
           (splitTextIntoSemantics (semanticSplitter e) (filterWhitelist (WHITELIST e) m)))))
        None"
proof -
  let ?m = "filterWhitelist (WHITELIST e) m"
  let ?sems = "splitTextIntoSemantics (semanticSplitter e) ?m"
  let ?first = "\<lambda>c. case index_query e c of Rejected \<Rightarrow> None | Resolved vs \<Rightarrow> first_of vs"
  let ?zero = "\<lparr>score = 0, metadata_text = None\<rparr>"
  let ?res = "map (\<lambda>c. Some ?zero) (splitTextIntoWords ?m) @ map ?first ?sems"
  let ?S = "set (0 # List.map_filter (top_score e) ?sems)"
  have res: "vectorRes e ?m = Inr ?res" by (rule vectorRes_resolved [OF assms(2)])
  have wn: "\<forall>c\<in>set (splitTextIntoWords ?m). flag_of (wordCallback e c) = None"
    using assms(3) unfolding flag_of_None .
  have sn: "\<forall>c\<in>set ?sems. flag_of (semanticCallback e c) = None"
    using assms(4) unfolding flag_of_None .
  have "snd ` set (flaggedFor e latency ?m) = {}"
    unfolding set_flaggedFor using wn sn by (auto simp: callbacks_def)
  then have emp: "flaggedFor e latency ?m = []" by simp
  from classify_clean [OF res emp] obtain v where
    v: "classify e latency ?m = Inr (Classification False (score v) None)"
    "Some v \<in> set ?res" "\<forall>u. Some u \<in> set ?res \<longrightarrow> score u \<le> score v" by blast
  have zero: "Some ?zero \<in> set ?res" by (rule vectorRes_has_word [OF res])
  have sub: "score u \<in> ?S" if "Some u \<in> set ?res" for u
  proof -
    from that have "u = ?zero \<or> (\<exists>c\<in>set ?sems. ?first c = Some u)" by auto
    then show ?thesis
    proof
      assume "u = ?zero"
      then show ?thesis by simp
    next
      assume "\<exists>c\<in>set ?sems. ?first c = Some u"
      then obtain c where "c \<in> set ?sems" "top_score e c = Some (score u)"
        unfolding top_score_first by blast
      then show ?thesis by (auto simp: set_map_filter)
    qed
  qed
  have sup: "\<exists>u. Some u \<in> set ?res \<and> score u = s" if "s \<in> ?S" for s
  proof -
    from that have "s = 0 \<or> (\<exists>c\<in>set ?sems. top_score e c = Some s)"
      by (auto simp: set_map_filter)
    then show ?thesis
    proof
      assume "s = 0"
      with zero show ?thesis by (intro exI [of _ ?zero]) simp
    next
      assume "\<exists>c\<in>set ?sems. top_score e c = Some s"
      then obtain c u where "c \<in> set ?sems" "?first c = Some u" "score u = s"
        unfolding top_score_first by blast
      then have "Some u \<in> set ?res" by (metis Un_iff image_eqI set_append set_map)
      with \<open>score u = s\<close> show ?thesis by blast
    qed
  qed
  have "Max ?S = score v"
  proof (rule Max_eqI)
    show "finite ?S" by simp
    show "score v \<in> ?S" by (rule sub [OF v(2)])
    fix s assume "s \<in> ?S"
    from sup [OF this] v(3) show "s \<le> score v" by blast
  qed
  with v(1) show ?thesis by (simp add: app_post_valid [OF assms(1)])
qed

theorem clean_score_witness:
  "fst (app_post (env_of index_hello) in_call_order (json_request ''hello world''))
    = Classification False
        (Max (set (0 # List.map_filter (top_score (env_of index_hello))
           (splitTextIntoSemantics (semanticSplitter (env_of index_hello)) ''hello world''))))
        None
   \<and> Max (set (0 # List.map_filter (top_score (env_of index_hello))
           (splitTextIntoSemantics (semanticSplitter (env_of index_hello)) ''hello world'')))
       = 3 / 10"
proof -
  have v: "passes_validation (json_request ''hello world'') ''hello world''" by code_simp
  have m: "filterWhitelist (WHITELIST (env_of index_hello)) ''hello world'' = ''hello world''"
    by code_simp
  have r: "\<forall>c\<in>set (queries (env_of index_hello)
      (filterWhitelist (WHITELIST (env_of index_hello)) ''hello world'')).
        index_query (env_of index_hello) c \<noteq> Rejected"
    by (simp add: env_of_def index_hello_def)
  have w: "\<forall>c\<in>set (splitTextIntoWords
      (filterWhitelist (WHITELIST (env_of index_hello)) ''hello world'')).
           \<forall>s. top_score (env_of index_hello) c = Some s \<longrightarrow> s \<le> 0.95"
    by (simp add: env_of_def index_hello_def top_score_def)
  have s: "\<forall>c\<in>set (splitTextIntoSemantics (semanticSplitter (env_of index_hello))
      (filterWhitelist (WHITELIST (env_of index_hello)) ''hello world'')).
           \<forall>s. top_score (env_of index_hello) c = Some s
              \<longrightarrow> s \<le> PROFANITY_THRESHOLD (env_of index_hello)"
    by (simp add: env_of_def index_hello_def top_score_def)
  have x: "Max (set (0 # List.map_filter (top_score (env_of index_hello))
           (splitTextIntoSemantics (semanticSplitter (env_of index_hello)) ''hello world'')))
       = 3 / 10" by code_simp
  from clean_score [OF v r w s, of in_call_order, unfolded m] x show ?thesis by (intro conjI)
qed







text \<open>
  Claim C4, as stated: a query for which the index returns nothing fails the whole
  request. It does not: both callbacks guard with \<^verbatim>\<open>vector &&\<close>, and the sort moves
  undefined elements behind the defined ones. With an index that returns no vector for
  any chunk, the request succeeds with \<^verbatim>\<open>isProfanity: false\<close> and score 0.
\<close>

theorem no_vector_counterexample:
  "app_post (env_of index_empty) in_call_order (json_request ''hello world'')
     = (Classification False 0 None, [''hello'', ''world'', ''hello world''])
   \<and> index_query (env_of index_empty) ''hello'' = Resolved []
   \<and> index_query (env_of index_empty) ''world'' = Resolved []
   \<and> index_query (env_of index_empty) ''hello world'' = Resolved []"
  by code_simp

text \<open>
  Claim C4, amended: for a request that passes validation, every chunk is queried once;
  if a query rejects, the answer is the error of status 500; if all queries resolve, the
  answer is a classification, also when queries resolve with no vector: a chunk without
  a vector is not flagged and adds no score, and when no chunk has a vector the answer
  is \<^verbatim>\<open>isProfanity: false\<close> with score 0.
\<close>

theorem query_failure_fails_request:
  assumes "passes_validation req m"
  shows "snd (app_post e latency req) = queries e (filterWhitelist (WHITELIST e) m)
    \<and> ((\<exists>c\<in>set (queries e (filterWhitelist (WHITELIST e) m)). index_query e c = Rejected)
          \<longrightarrow> fst (app_post e latency req) = Json_error 500 ''Something went wrong.'')
    \<and> ((\<forall>c\<in>set (queries e (filterWhitelist (WHITELIST e) m)). index_query e c \<noteq> Rejected)
          \<longrightarrow> (\<exists>b s t. fst (app_post e latency req) = Classification b s t))
    \<and> ((\<forall>c\<in>set (queries e (filterWhitelist (WHITELIST e) m)). index_query e c = Resolved [])
          \<longrightarrow> fst (app_post e latency req) = Classification False 0 None)"
proof -
  let ?m = "filterWhitelist (WHITELIST e) m"
  note post = app_post_valid [OF assms, of e latency]
  have classified: "\<exists>b s t. classify e latency ?m = Inr (Classification b s t)"
    if "\<forall>c\<in>set (queries e ?m). index_query e c \<noteq> Rejected"
  proof -
    from vectorRes_resolved [OF that] obtain res where res: "vectorRes e ?m = Inr res" by blast
    show ?thesis
    proof (cases "flaggedFor e latency ?m = []")
      case True
      from classify_clean [OF res True] show ?thesis by blast
    next
      case False
      from classify_flagged [OF res False] show ?thesis by blast
    qed
  qed
  show ?thesis
  proof (intro conjI impI)
    show "snd (app_post e latency req) = queries e ?m" unfolding post by simp
  next
    assume "\<exists>c\<in>set (queries e ?m). index_query e c = Rejected"
    then obtain c where "c \<in> set (queries e ?m)" "index_query e c = Rejected" by blast
    from classify_rejected [OF this]
    show "fst (app_post e latency req) = Json_error 500 ''Something went wrong.''"
      unfolding post by simp
  next
    assume "\<forall>c\<in>set (queries e ?m). index_query e c \<noteq> Rejected"
    from classified [OF this]
    show "\<exists>b s t. fst (app_post e latency req) = Classification b s t"
      unfolding post by auto
  next
    assume none: "\<forall>c\<in>set (queries e ?m). index_query e c = Resolved []"
    then have ok: "\<forall>c\<in>set (queries e ?m). index_query e c \<noteq> Rejected" by simp
    let ?zero = "\<lparr>score = 0, metadata_text = None\<rparr>"
    let ?res = "map (\<lambda>c. Some ?zero) (splitTextIntoWords ?m)
         @ map (\<lambda>c. case index_query e c of Rejected \<Rightarrow> None | Resolved vs \<Rightarrow> first_of vs)
             (splitTextIntoSemantics (semanticSplitter e) ?m)"
    have res: "vectorRes e ?m = Inr ?res" by (rule vectorRes_resolved [OF ok])
    from none have "\<forall>x\<in>set (callbacks e ?m). flag_of x = None"
      by (auto simp: callbacks_def queries_def flag_of_wordCallback flag_of_semanticCallback)
    then have "snd ` set (flaggedFor e latency ?m) = {}"
      unfolding set_flaggedFor by auto
    then have emp: "flaggedFor e latency ?m = []" by simp
    from classify_clean [OF res emp] obtain v where
      v: "classify e latency ?m = Inr (Classification False (score v) None)"
      "Some v \<in> set ?res" by blast
    from v(2) none have "v = ?zero" by (auto simp: queries_def)
    with v(1) show "fst (app_post e latency req) = Classification False 0 None"
      unfolding post by simp
  qed
qed

theorem query_failure_fails_request_witness:
  "fst (app_post (env_of index_down) in_call_order (json_request ''hello world''))
     = Json_error 500 ''Something went wrong.''
   \<and> snd (app_post (env_of index_down) in_call_order (json_request ''hello world''))
     = [''hello'', ''world'', ''hello world'']
   \<and> fst (app_post (env_of index_empty) in_call_order (json_request ''hello world''))
     = Classification False 0 None"
proof -
  have v: "passes_validation (json_request ''hello world'') ''hello world''" by code_simp
  have m: "filterWhitelist (WHITELIST (env_of q)) ''hello world'' = ''hello world''" for q
    by (simp add: env_of_def filterWhitelist_def isWhiteSpace_def toLowerCase_def
        toLowerCase_char_def)
  have q: "queries (env_of q) ''hello world'' = [''hello'', ''world'', ''hello world'']" for q
    by (simp add: env_of_def queries_def splitTextIntoWords_def splitTextIntoSemantics_def
        isWhiteSpace_def)
  have down: "\<exists>c\<in>set [''hello'', ''world'', ''hello world'']. index_query (env_of index_down) c = Rejected"
    by (auto simp: env_of_def index_down_def)
  have empty: "\<forall>c\<in>set [''hello'', ''world'', ''hello world'']. index_query (env_of index_empty) c = Resolved []"
    by (simp add: env_of_def index_empty_def)
  from query_failure_fails_request [OF v, of "env_of index_down" in_call_order, unfolded m q] down
  have a: "fst (app_post (env_of index_down) in_call_order (json_request ''hello world''))
     = Json_error 500 ''Something went wrong.''"
    and b: "snd (app_post (env_of index_down) in_call_order (json_request ''hello world''))
     = [''hello'', ''world'', ''hello world'']" by blast+
  from query_failure_fails_request [OF v, of "env_of index_empty" in_call_order, unfolded m q] empty
  have c: "fst (app_post (env_of index_empty) in_call_order (json_request ''hello world''))
     = Classification False 0 None" by blast
  from a b c show ?thesis by (intro conjI)
qed

text \<open>
  Claim C2: two flagged matches with the same score and text count as one member of the
  set. The comment at the declaration of \<^verbatim>\<open>flaggedFor\<close> says so, but the members are
  object literals, each a new object, and a \<^verbatim>\<open>Set\<close> compares objects by reference. For
  the message \<^verbatim>\<open>damn damn\<close>, whose two words match the same entry with the same score,
  the set ends with two members of equal contents.
\<close>

theorem duplicate_flagged_objects_kept:
  "flaggedFor (env_of index_damn) in_call_order ''damn damn''
     = [(0, \<lparr>flag_text = Some ''damn'', flag_score = 1\<rparr>),
        (1, \<lparr>flag_text = Some ''damn'', flag_score = 1\<rparr>)]
   \<and> length (flaggedFor (env_of index_damn) in_call_order ''damn damn'') = 2
   \<and> fst (app_post (env_of index_damn) in_call_order (json_request ''damn damn''))
     = Classification True 1 (Some ''damn'')"
  by code_simp

end
